theory Spec2Isabelle
  imports Main "HOL-Library.Word"
begin

section \<open>The key lock manager of keylock.go\<close>

text \<open>
  \<^verbatim>\<open>KeyLock\<close> (keylock.go, lines 11 to 15) holds the registry \<^verbatim>\<open>locks\<close>, a
  \<^verbatim>\<open>sync.Map\<close> from a key to a pointer to its \<^verbatim>\<open>spinLock\<close>, the counter \<^verbatim>\<open>count\<close>
  and the configuration \<^verbatim>\<open>maxSpins\<close>, both \<^verbatim>\<open>int32\<close>. A \<^verbatim>\<open>spinLock\<close> is an
  \<^verbatim>\<open>int32\<close> that the code only ever compares with 0 and sets to 0 or 1.

  Every cell is allocated by \<^verbatim>\<open>new(spinLock)\<close> for one key and is reached through the
  registry entry of that key only, and no call keeps the pointer after it returns. So the
  registry is modelled as a map from the key to the content of the key's cell. The
  operations below are the calls of one goroutine, each running to its end before the next
  starts.
\<close>

type_synonym spinLock = "32 word"

record KeyLock =
  locks :: "string \<rightharpoonup> spinLock"
  count :: "32 word"
  maxSpins :: "32 word"

definition defaultMaxSpins :: "32 word" where
  "defaultMaxSpins = 16"

definition New :: KeyLock where
  "New = \<lparr>locks = Map.empty, count = 0, maxSpins = defaultMaxSpins\<rparr>"

definition WithMaxSpins :: "32 word \<Rightarrow> KeyLock \<Rightarrow> KeyLock" where
  "WithMaxSpins mx kl = kl\<lparr>maxSpins := mx\<rparr>"

subsection \<open>The primitives of sync.Map and sync/atomic\<close>

text \<open>
  \<^verbatim>\<open>kl.locks.LoadOrStore(key, new(spinLock))\<close>: the entry of the key is kept when there is
  one, otherwise the fresh cell, whose content is 0, is stored under the key. The pointer
  that the call returns is the pointer to the cell now under the key.
\<close>

definition LoadOrStore :: "string \<Rightarrow> (string \<rightharpoonup> spinLock) \<Rightarrow> (string \<rightharpoonup> spinLock)" where
  "LoadOrStore key m = (case m key of Some v \<Rightarrow> m | None \<Rightarrow> m(key \<mapsto> 0))"

text \<open>
  \<^verbatim>\<open>atomic.CompareAndSwapInt32(addr, old, new)\<close> on a cell with content \<open>v\<close>: whether the
  swap happened, and the content afterwards.
\<close>

definition CompareAndSwapInt32 :: "32 word \<Rightarrow> 32 word \<Rightarrow> 32 word \<Rightarrow> bool \<times> 32 word" where
  "CompareAndSwapInt32 v old new = (if v = old then (True, new) else (False, v))"

subsection \<open>TryLock, Unlock, Size and Cleanup\<close>

text \<open>Lines 39 to 47.\<close>

definition TryLock :: "string \<Rightarrow> KeyLock \<Rightarrow> bool \<times> KeyLock" where
  "TryLock key kl =
    (let m = LoadOrStore key (locks kl);
         (swapped, v) = CompareAndSwapInt32 (the (m key)) 0 1
     in if swapped
        then (True, kl\<lparr>locks := m(key \<mapsto> v), count := count kl + 1\<rparr>)
        else (False, kl\<lparr>locks := m\<rparr>))"

text \<open>
  Lines 67 to 73: when the key has an entry, the cell is set to 0 and \<open>-1\<close> is added to the
  counter; the content of the cell is not read.
\<close>

definition Unlock :: "string \<Rightarrow> KeyLock \<Rightarrow> KeyLock" where
  "Unlock key kl =
    (case locks kl key of
       Some v \<Rightarrow> kl\<lparr>locks := (locks kl)(key \<mapsto> 0), count := count kl + (- 1)\<rparr>
     | None \<Rightarrow> kl)"

text \<open>Lines 76 to 78: \<^verbatim>\<open>int(atomic.LoadInt32(&kl.count))\<close>, the counter read as a signed value.\<close>

definition Size :: "KeyLock \<Rightarrow> int" where
  "Size kl = sint (count kl)"

text \<open>
  Lines 82 to 89: \<^verbatim>\<open>Range\<close> visits every entry once and the visitor deletes the entry it
  is at when its cell holds 0. The visits do not depend on each other, so the registry
  afterwards is given entry by entry.
\<close>

definition Cleanup :: "KeyLock \<Rightarrow> KeyLock" where
  "Cleanup kl =
    kl\<lparr>locks := (\<lambda>key. case locks kl key of
                        Some v \<Rightarrow> if v = 0 then None else Some v
                      | None \<Rightarrow> None)\<rparr>"

subsection \<open>Lock and its waiting loop\<close>

text \<open>
  Lines 54 to 62. \<^verbatim>\<open>backoff\<close> is an \<^verbatim>\<open>int\<close>, which Go makes 32 bits wide on some
  platforms (386, arm) and 64 bits wide on others (amd64, arm64): the width is the type
  parameter \<open>'w\<close> of the definitions of the loop. \<^verbatim>\<open>for range backoff\<close> runs its body
  \<^verbatim>\<open>backoff\<close> times, and not at all for a value below 1. \<^verbatim>\<open>backoff < int(kl.maxSpins)\<close>
  compares signed values after the conversion of \<^verbatim>\<open>maxSpins\<close> to that width, and
  \<^verbatim>\<open>backoff <<= 1\<close> shifts in that width.
\<close>

definition gosched_calls :: "'w::len word \<Rightarrow> nat" where
  "gosched_calls backoff = nat (sint backoff)"

definition next_backoff :: "32 word \<Rightarrow> 'w::len word \<Rightarrow> 'w word" where
  "next_backoff mx backoff = (if backoff <s scast mx then push_bit 1 backoff else backoff)"

text \<open>
  The loop reads one shared word, the cell, which other goroutines write while this one
  yields. \<open>obs i\<close> is the content that the compare-and-swap number \<open>i\<close> of the call finds,
  counted from 0. The loop may run forever, so its model returns an option: the number of
  calls of \<^verbatim>\<open>runtime.Gosched\<close> in each round, in the order of the rounds, when the loop is
  left, and \<open>None\<close> when it never is.
\<close>

partial_function (option) spin ::
  "(nat \<Rightarrow> spinLock) \<Rightarrow> 32 word \<Rightarrow> nat \<Rightarrow> 'w::len word \<Rightarrow> nat list \<Rightarrow> nat list option" where
  "spin obs mx i backoff yields =
    (if fst (CompareAndSwapInt32 (obs i) 0 1) then Some yields
     else spin obs mx (Suc i) (next_backoff mx backoff) (yields @ [gosched_calls backoff]))"

text \<open>The value of \<^verbatim>\<open>backoff\<close> after \<open>n\<close> failed attempts, from line 54 on.\<close>

definition backoff_at :: "32 word \<Rightarrow> nat \<Rightarrow> 'w::len word" where
  "backoff_at mx n = (next_backoff mx ^^ n) 1"

text \<open>
  Lines 50 to 64 in a sequence of calls of one goroutine: nothing writes the cell between
  two attempts, so every attempt finds what the first one found. When the loop is left the
  swap has set the cell to 1 and the counter is incremented. The state after the call
  does not depend on \<^verbatim>\<open>backoff\<close>, so the width at which the loop is run here does not
  matter; \<open>Lock_any_width\<close> below proves it.
\<close>

definition Lock :: "string \<Rightarrow> KeyLock \<Rightarrow> KeyLock option" where
  "Lock key kl =
    (let m = LoadOrStore key (locks kl)
     in case spin (\<lambda>i. the (m key)) (maxSpins kl) 0 (1 :: 64 word) [] of
          None \<Rightarrow> None
        | Some yields \<Rightarrow> Some (kl\<lparr>locks := m(key \<mapsto> 1), count := count kl + 1\<rparr>))"

subsection \<open>States of a cell, and sequences of calls\<close>

text \<open>
  The code tells two states of a cell apart, by \<^verbatim>\<open>CompareAndSwapInt32(_, 0, 1)\<close> and by
  \<^verbatim>\<open>LoadInt32(_) == 0\<close>: the content 0, unlocked, and any other content, locked. A key
  without an entry has no locked cell.
\<close>

definition locked :: "KeyLock \<Rightarrow> string \<Rightarrow> bool" where
  "locked kl key = (case locks kl key of Some v \<Rightarrow> v \<noteq> 0 | None \<Rightarrow> False)"

text \<open>
  A cell that another goroutine holds during the first \<open>n\<close> attempts of a call of
  \<^verbatim>\<open>Lock\<close> and has released before attempt \<open>n\<close>.
\<close>

definition held_for :: "nat \<Rightarrow> nat \<Rightarrow> spinLock" where
  "held_for n i = (if i < n then 1 else 0)"

text \<open>
  The calls of the interface and their effect on the manager. A call of \<^verbatim>\<open>Lock\<close> that
  never returns ends the sequence without a state.
\<close>

datatype call = CLock string | CTryLock string | CUnlock string | CSize | CCleanup

fun invoke :: "call \<Rightarrow> KeyLock \<Rightarrow> KeyLock option" where
  "invoke (CLock key) kl = Lock key kl"
| "invoke (CTryLock key) kl = Some (snd (TryLock key kl))"
| "invoke (CUnlock key) kl = Some (Unlock key kl)"
| "invoke CSize kl = Some kl"
| "invoke CCleanup kl = Some (Cleanup kl)"

fun invoke_all :: "call list \<Rightarrow> KeyLock \<Rightarrow> KeyLock option" where
  "invoke_all [] kl = Some kl"
| "invoke_all (c # cs) kl = (case invoke c kl of None \<Rightarrow> None | Some kl1 \<Rightarrow> invoke_all cs kl1)"

text \<open>
  A sequence of balanced pairs: only \<^verbatim>\<open>Lock\<close> and \<^verbatim>\<open>Unlock\<close>, every \<^verbatim>\<open>Lock\<close> of a key
  that is not held at that point, every \<^verbatim>\<open>Unlock\<close> of a key that is, and no key held at
  the end. \<open>held\<close> is the set of the keys held at the start.
\<close>

fun balanced :: "string set \<Rightarrow> call list \<Rightarrow> bool" where
  "balanced held [] = (held = {})"
| "balanced held (CLock key # cs) = (key \<notin> held \<and> balanced (insert key held) cs)"
| "balanced held (CUnlock key # cs) = (key \<in> held \<and> balanced (held - {key}) cs)"
| "balanced held (c # cs) = False"

text \<open>The manager and a set of held keys agree: the locked cells and the counter.\<close>

definition agrees :: "string set \<Rightarrow> KeyLock \<Rightarrow> bool" where
  "agrees held kl =
    (finite held \<and> {key. locked kl key} = held \<and> count kl = of_nat (card held))"

text \<open>\<open>2 ^ 31\<close> keys, all different: \<open>k\<close> written 0, 1, 2 and more times.\<close>

definition key_of :: "nat \<Rightarrow> string" where
  "key_of n = replicate n (CHR ''k'')"

definition many_keys :: "string list" where
  "many_keys = map key_of [0..<2147483648]"

section \<open>The waiting loop\<close>

lemma cas_fst: "fst (CompareAndSwapInt32 v 0 1) = (v = 0)"
  by (simp add: CompareAndSwapInt32_def)

text \<open>As long as the attempts fail, the loop goes round.\<close>

lemma spin_unroll:
  "(\<And>j. j < n \<Longrightarrow> obs (i + j) \<noteq> 0) \<Longrightarrow>
   spin obs mx i b ys =
   spin obs mx (i + n) ((next_backoff mx ^^ n) b)
     (ys @ map (\<lambda>j. gosched_calls ((next_backoff mx ^^ j) b)) [0..<n])"
proof (induction n arbitrary: i b ys)
  case 0
  show ?case by simp
next
  case (Suc n)
  have "obs (i + n) \<noteq> 0" using Suc.prems [of n] by simp
  then have step: "spin obs mx (i + n) b' ys' =
      spin obs mx (Suc (i + n)) (next_backoff mx b') (ys' @ [gosched_calls b'])" for b' ys'
    by (subst spin.simps) (simp add: cas_fst)
  have "spin obs mx i b ys = spin obs mx (i + n) ((next_backoff mx ^^ n) b)
     (ys @ map (\<lambda>j. gosched_calls ((next_backoff mx ^^ j) b)) [0..<n])"
    using Suc.prems by (intro Suc.IH) simp
  then show ?case
    by (simp add: step)
qed

text \<open>The loop is left only when some attempt finds the cell unlocked.\<close>

lemma spin_Some_obs:
  assumes "spin obs mx i b ys = Some r"
  shows "\<exists>j. obs j = 0"
  by (rule spin.raw_induct [where P = "\<lambda>obs mx i b ys r. \<exists>j. obs j = 0", OF _ assms])
    (auto simp: cas_fst split: if_splits)

lemma spin_from_start:
  assumes "\<forall>j<n. obs j \<noteq> 0"
  shows "spin obs mx 0 (1 :: 'w::len word) [] =
    spin obs mx n (backoff_at mx n :: 'w word)
      (map (\<lambda>j. gosched_calls (backoff_at mx j :: 'w word)) [0..<n])"
  using spin_unroll [of n obs 0 mx "1 :: 'w word" "[]"] assms by (simp add: backoff_at_def)

lemma spin_returns:
  assumes "\<forall>j<n. obs j \<noteq> 0" "obs n = 0"
  shows "spin obs mx 0 (1 :: 'w::len word) [] =
    Some (map (\<lambda>j. gosched_calls (backoff_at mx j :: 'w word)) [0..<n])"
  using spin_from_start [OF assms(1), of mx, where 'w = 'w] assms(2)
  by (subst (asm) (2) spin.simps) (simp add: cas_fst)

lemma spin_at_once:
  assumes "obs 0 = 0"
  shows "spin obs mx 0 (1 :: 'w::len word) [] = Some []"
  using spin_returns [of 0 obs mx, where 'w = 'w] assms by simp

lemma spin_never:
  assumes "\<forall>j. obs j \<noteq> 0"
  shows "spin obs mx i (b :: 'w::len word) ys = None"
proof (cases "spin obs mx i b ys")
  case (Some r)
  from spin_Some_obs [OF Some] assms show ?thesis by simp
qed simp

lemma spin_Some_trace:
  assumes "spin obs mx 0 (1 :: 'w::len word) [] = Some ys"
  shows "\<exists>n. obs n = 0 \<and> (\<forall>j<n. obs j \<noteq> 0) \<and>
    ys = map (\<lambda>j. gosched_calls (backoff_at mx j :: 'w word)) [0..<n]"
proof -
  obtain j where "obs j = 0" using spin_Some_obs [OF assms] by blast
  define n where "n = (LEAST j. obs j = 0)"
  have n0: "obs n = 0" unfolding n_def using \<open>obs j = 0\<close> by (rule LeastI)
  have nl: "\<forall>j<n. obs j \<noteq> 0" unfolding n_def using not_less_Least by blast
  from spin_returns [OF nl n0, of mx, where 'w = 'w] assms n0 nl show ?thesis by auto
qed

subsection \<open>The values of backoff\<close>

lemma sint_scast_maxSpins:
  assumes "32 \<le> LENGTH('w::len)"
  shows "sint (scast (mx :: 32 word) :: 'w word) = sint mx"
  using assms by (intro sint_up_scast) (simp add: is_up)

lemma sint_one_wide:
  assumes "32 \<le> LENGTH('w::len)"
  shows "sint (1 :: 'w word) = 1"
  using assms by (simp add: sint_word_01 signed_take_bit_int_eq_self)

text \<open>
  A value of \<^verbatim>\<open>maxSpins\<close> that is not positive: \<^verbatim>\<open>backoff\<close> is never below it, and stays 1,
  at either width.
\<close>

lemma backoff_at_nonpos:
  assumes "32 \<le> LENGTH('w::len)" "sint mx \<le> 0"
  shows "backoff_at mx n = (1 :: 'w word)"
proof (induction n)
  case 0
  show ?case by (simp add: backoff_at_def)
next
  case (Suc n)
  have "backoff_at mx (Suc n) = next_backoff mx (backoff_at mx n :: 'w word)"
    by (simp add: backoff_at_def)
  with Suc assms show ?case
    by (simp add: next_backoff_def word_sless_alt sint_scast_maxSpins sint_one_wide)
qed

text \<open>
  As long as twice \<^verbatim>\<open>maxSpins\<close> fits the width, the shift doubles and does not wrap:
  \<^verbatim>\<open>backoff\<close> is a power of two that has been doubled only from a value below \<^verbatim>\<open>maxSpins\<close>.
  That is every \<^verbatim>\<open>maxSpins\<close> at 64 bits, and \<^verbatim>\<open>maxSpins\<close> up to \<open>2 ^ 30\<close> at 32 bits.
\<close>

lemma backoff_at_pow:
  assumes "32 \<le> LENGTH('w::len)" "sint mx \<le> 2 ^ (LENGTH('w) - 2)"
  shows "\<exists>k. sint (backoff_at mx n :: 'w word) = 2 ^ k \<and> (k = 0 \<or> 2 ^ (k - 1) < sint mx)"
proof (induction n)
  case 0
  have "sint (backoff_at mx 0 :: 'w word) = 2 ^ 0"
    using assms(1) by (simp add: backoff_at_def sint_one_wide)
  then show ?case by blast
next
  case (Suc n)
  let ?b = "backoff_at mx n :: 'w word"
  from Suc obtain k where k: "sint ?b = 2 ^ k" "k = 0 \<or> 2 ^ (k - 1) < sint mx"
    by blast
  have nb: "backoff_at mx (Suc n) = next_backoff mx ?b"
    by (simp add: backoff_at_def)
  show ?case
  proof (cases "sint ?b < sint mx")
    case False
    then have "next_backoff mx ?b = ?b"
      using assms(1) by (simp add: next_backoff_def word_sless_alt sint_scast_maxSpins)
    with nb k show ?thesis by auto
  next
    case True
    with k have "(2::int) ^ k < sint mx" by simp
    from this assms(2) have "(2::int) ^ k < 2 ^ (LENGTH('w) - 2)" by (rule less_le_trans)
    then have "k < LENGTH('w) - 2" by (simp only: power_strict_increasing_iff)
    then have "Suc k < LENGTH('w) - 1" using assms(1) by simp
    then have "(2::int) ^ Suc k < 2 ^ (LENGTH('w) - 1)"
      by (simp only: power_strict_increasing_iff)
    then have fits: "sint ?b * 2 < 2 ^ (LENGTH('w) - 1)" using k by simp
    have "- (2 ^ (LENGTH('w) - 1)) \<le> (0::int)" by simp
    also have "\<dots> \<le> sint ?b * 2" using k by simp
    finally have low: "- (2 ^ (LENGTH('w) - 1)) \<le> sint ?b * 2" .
    have "push_bit 1 ?b = ?b + ?b" by (simp add: push_bit_eq_mult)
    then have "sint (push_bit 1 ?b) = signed_take_bit (LENGTH('w) - 1) (sint ?b + sint ?b)"
      by (simp only: sint_word_add)
    moreover have "sint ?b + sint ?b = sint ?b * 2" by arith
    ultimately have "sint (push_bit 1 ?b) = signed_take_bit (LENGTH('w) - 1) (sint ?b * 2)"
      by (simp only:)
    also have "\<dots> = sint ?b * 2"
      using low fits by (rule signed_take_bit_int_eq_self)
    finally have "sint (next_backoff mx ?b) = 2 * sint ?b"
      using True assms(1) by (simp add: next_backoff_def word_sless_alt sint_scast_maxSpins)
    with nb k True have "sint (backoff_at mx (Suc n) :: 'w word) = 2 ^ Suc k \<and>
        2 ^ (Suc k - 1) < sint mx"
      by simp
    then show ?thesis by blast
  qed
qed

lemma sint_backoff_at_ge1:
  assumes "32 \<le> LENGTH('w::len)" "sint mx \<le> 2 ^ (LENGTH('w) - 2)"
  shows "1 \<le> sint (backoff_at mx n :: 'w word)"
proof -
  obtain k where "sint (backoff_at mx n :: 'w word) = 2 ^ k"
    using backoff_at_pow [OF assms] by blast
  then show ?thesis by simp
qed

text \<open>So at 64 bits every round yields, whatever \<^verbatim>\<open>maxSpins\<close> is.\<close>

lemma gosched_calls_ge1_64:
  "1 \<le> gosched_calls (backoff_at mx n :: 64 word)"
proof -
  have "sint mx < 2 ^ 31" using sint_lt [of mx] by simp
  then have "sint mx \<le> 2 ^ (LENGTH(64) - 2)" by simp
  from sint_backoff_at_ge1 [OF _ this, of n] show ?thesis
    by (simp add: gosched_calls_def)
qed

text \<open>
  At 32 bits and with \<^verbatim>\<open>maxSpins\<close> \<open>2 ^ 30 + 1\<close>: the first 30 rounds double, and once
  \<^verbatim>\<open>backoff\<close> is 0 it stays 0.
\<close>

lemma sint_pow2_32:
  assumes "n \<le> 30"
  shows "sint (2 ^ n :: 32 word) = 2 ^ n"
proof -
  from assms have "n < 31" by simp
  then have up: "(2::int) ^ n < 2 ^ 31" by (simp only: power_strict_increasing_iff)
  have "- (2 ^ 31) \<le> (0::int)" by simp
  also have "\<dots> \<le> 2 ^ n" by simp
  finally have low: "- (2 ^ 31) \<le> (2::int) ^ n" .
  have "(2 ^ n :: 32 word) = word_of_int (2 ^ n)" by simp
  then have "sint (2 ^ n :: 32 word) = signed_take_bit 31 (2 ^ n)"
    by (simp only: sint_sbintrunc') simp
  also have "\<dots> = 2 ^ n" using low up by (rule signed_take_bit_int_eq_self)
  finally show ?thesis .
qed

lemma backoff_at_doubles_32:
  "n \<le> 30 \<Longrightarrow> backoff_at 1073741825 n = (2 ^ n :: 32 word)"
proof (induction n)
  case 0
  show ?case by (simp add: backoff_at_def)
next
  case (Suc n)
  then have b: "backoff_at 1073741825 n = (2 ^ n :: 32 word)" and n: "n < 30" by simp_all
  from n have "(2::int) ^ n < 2 ^ 30" by (simp only: power_strict_increasing_iff)
  moreover from n have "sint (2 ^ n :: 32 word) = 2 ^ n"
    by (simp add: sint_pow2_32)
  ultimately have "(2 ^ n :: 32 word) <s scast (1073741825 :: 32 word)"
    by (simp add: word_sless_alt)
  then have "next_backoff 1073741825 (2 ^ n :: 32 word) = 2 ^ Suc n"
    by (simp add: next_backoff_def push_bit_eq_mult)
  with b show ?case by (simp add: backoff_at_def)
qed

lemma backoff_at_add:
  "backoff_at mx (m + n) = (next_backoff mx ^^ n) (backoff_at mx m :: 'w::len word)"
  by (simp add: backoff_at_def add.commute [of m n] funpow_add)

lemma next_backoff_zero: "(next_backoff mx ^^ n) (0 :: 'w::len word) = 0"
  by (induction n) (simp_all add: next_backoff_def)

subsection \<open>The schedule of the yields\<close>

text \<open>
  Claim C5, on the code. A manager configured by \<^verbatim>\<open>WithMaxSpins(3)\<close>, and a call of
  \<^verbatim>\<open>Lock\<close> whose first three attempts find the cell locked: \<^verbatim>\<open>backoff\<close> is 1, then 2, then,
  2 being below 3, it is doubled to 4. The third round calls \<^verbatim>\<open>runtime.Gosched\<close> 4 times,
  more than \<^verbatim>\<open>maxSpins\<close>, at either width of \<^verbatim>\<open>int\<close>.
\<close>

theorem backoff_4_with_maxSpins_3:
  "spin (held_for 3) (maxSpins (WithMaxSpins 3 New)) 0 (1 :: 64 word) [] = Some [1, 2, 4] \<and>
   spin (held_for 3) (maxSpins (WithMaxSpins 3 New)) 0 (1 :: 32 word) [] = Some [1, 2, 4] \<and>
   sint (backoff_at (maxSpins (WithMaxSpins 3 New)) 2 :: 64 word) = 4 \<and>
   sint (backoff_at (maxSpins (WithMaxSpins 3 New)) 2 :: 32 word) = 4 \<and>
   sint (maxSpins (WithMaxSpins 3 New)) = 3"
proof -
  have h: "\<forall>j<3. held_for 3 j \<noteq> 0" "held_for 3 3 = 0"
    by (simp_all add: held_for_def)
  have "map (\<lambda>j. gosched_calls (backoff_at 3 j :: 64 word)) [0..<3] = [1, 2, 4]"
    by (simp add: backoff_at_def next_backoff_def gosched_calls_def word_sless_alt
        eval_nat_numeral upt_rec)
  moreover have "map (\<lambda>j. gosched_calls (backoff_at 3 j :: 32 word)) [0..<3] = [1, 2, 4]"
    by (simp add: backoff_at_def next_backoff_def gosched_calls_def word_sless_alt
        eval_nat_numeral upt_rec)
  moreover have "sint (backoff_at 3 2 :: 64 word) = 4" "sint (backoff_at 3 2 :: 32 word) = 4"
    by (simp_all add: backoff_at_def next_backoff_def word_sless_alt eval_nat_numeral)
  ultimately show ?thesis
    using spin_returns [OF h, of 3, where 'w = 64] spin_returns [OF h, of 3, where 'w = 32]
    by (simp add: WithMaxSpins_def)
qed

text \<open>
  Claim C9, on the code. With a 32 bit \<^verbatim>\<open>int\<close>, a manager configured by
  \<^verbatim>\<open>WithMaxSpins(1073741825)\<close>, which is \<open>2 ^ 30 + 1\<close>, and a call of \<^verbatim>\<open>Lock\<close> whose attempts
  keep finding the cell locked: after 30 rounds \<^verbatim>\<open>backoff\<close> is \<open>2 ^ 30\<close>, still below
  \<^verbatim>\<open>maxSpins\<close>, and the shift wraps it to \<open>- (2 ^ 31)\<close>; the next shift makes it 0, where
  it stays. From round 31 on no round calls \<^verbatim>\<open>runtime.Gosched\<close>: a call that leaves the
  loop at attempt 34 has yielded in its first 31 rounds and in none of the last three.
\<close>

theorem no_yield_after_wrap_32:
  "sint (backoff_at (maxSpins (WithMaxSpins 1073741825 New)) 30 :: 32 word) = 1073741824 \<and>
   sint (backoff_at (maxSpins (WithMaxSpins 1073741825 New)) 31 :: 32 word) = - 2147483648 \<and>
   backoff_at (maxSpins (WithMaxSpins 1073741825 New)) (32 + n) = (0 :: 32 word) \<and>
   gosched_calls (backoff_at (maxSpins (WithMaxSpins 1073741825 New)) (31 + n) :: 32 word) = 0 \<and>
   spin (held_for 34) (maxSpins (WithMaxSpins 1073741825 New)) 0 (1 :: 32 word) [] =
     Some (map (\<lambda>j. 2 ^ j) [0..<31] @ [0, 0, 0])"
proof -
  let ?mx = "1073741825 :: 32 word"
  have mx: "maxSpins (WithMaxSpins 1073741825 New) = ?mx"
    by (simp add: WithMaxSpins_def)
  have b30: "backoff_at ?mx 30 = (2 ^ 30 :: 32 word)"
    by (rule backoff_at_doubles_32) simp
  have b31: "backoff_at ?mx 31 = (- 2147483648 :: 32 word)"
    using backoff_at_add [of ?mx 30 1, where 'w = 32] b30
    by (simp add: next_backoff_def word_sless_alt)
  have b32: "backoff_at ?mx 32 = (0 :: 32 word)"
    using backoff_at_add [of ?mx 31 1, where 'w = 32] b31
    by (simp add: next_backoff_def word_sless_alt)
  have z: "backoff_at ?mx (32 + n) = (0 :: 32 word)" for n
    using backoff_at_add [of ?mx 32 n, where 'w = 32] b32 by (simp add: next_backoff_zero)
  have g: "gosched_calls (backoff_at ?mx (31 + n) :: 32 word) = 0" for n
  proof (cases n)
    case 0
    with b31 show ?thesis by (simp add: gosched_calls_def)
  next
    case (Suc m)
    with z [of m] show ?thesis by (simp add: gosched_calls_def)
  qed
  have h: "\<forall>j<34. held_for 34 j \<noteq> 0" "held_for 34 34 = 0"
    by (simp_all add: held_for_def)
  have split: "[0..<34] = [0..<31] @ [31 + 0, 31 + 1, 31 + 2]"
    by (simp add: upt_rec [of 31] upt_rec [of 32] upt_rec [of 33] upt_rec [of 34]
        upt_add_eq_append [of 0 31 3, simplified])
  have low: "map (\<lambda>j. gosched_calls (backoff_at ?mx j :: 32 word)) [0..<31] =
      map (\<lambda>j. 2 ^ j) [0..<31]"
  proof (rule map_cong [OF refl])
    fix j assume "j \<in> set [0..<31]"
    then have j: "j \<le> 30" by simp
    then have "sint (2 ^ j :: 32 word) = 2 ^ j" by (rule sint_pow2_32)
    with j show "gosched_calls (backoff_at ?mx j :: 32 word) = 2 ^ j"
      by (simp add: backoff_at_doubles_32 gosched_calls_def nat_power_eq)
  qed
  have "map (\<lambda>j. gosched_calls (backoff_at ?mx j :: 32 word)) [0..<34] =
      map (\<lambda>j. 2 ^ j) [0..<31] @ [0, 0, 0]"
    unfolding split map_append low by (simp only: list.map g)
  with spin_returns [OF h, of ?mx, where 'w = 32] b30 b31 z g show ?thesis
    unfolding mx by simp
qed

section \<open>Calls of one goroutine\<close>

subsection \<open>TryLock and Lock on an unlocked and on a locked cell\<close>

lemma TryLock_free:
  "\<not> locked kl key \<Longrightarrow>
   TryLock key kl = (True, kl\<lparr>locks := (locks kl)(key \<mapsto> 1), count := count kl + 1\<rparr>)"
  by (auto simp: TryLock_def locked_def LoadOrStore_def CompareAndSwapInt32_def
      split: option.splits)

lemma TryLock_held:
  "locked kl key \<Longrightarrow> TryLock key kl = (False, kl)"
  by (auto simp: TryLock_def locked_def LoadOrStore_def CompareAndSwapInt32_def
      split: option.splits)

lemma Lock_free:
  assumes "\<not> locked kl key"
  shows "Lock key kl = Some (kl\<lparr>locks := (locks kl)(key \<mapsto> 1), count := count kl + 1\<rparr>)"
proof -
  have z: "the (LoadOrStore key (locks kl) key) = 0"
    using assms by (auto simp: locked_def LoadOrStore_def split: option.splits)
  have "(LoadOrStore key (locks kl))(key \<mapsto> 1) = (locks kl)(key \<mapsto> 1)"
    by (auto simp: LoadOrStore_def split: option.splits)
  then show ?thesis by (simp add: Lock_def spin_at_once z)
qed

text \<open>With no other goroutine to release the key, \<^verbatim>\<open>Lock\<close> of a held key never returns.\<close>

lemma Lock_held:
  assumes "locked kl key"
  shows "Lock key kl = None"
proof -
  have z: "the (LoadOrStore key (locks kl) key) \<noteq> 0"
    using assms by (auto simp: locked_def LoadOrStore_def split: option.splits)
  then show ?thesis by (simp add: Lock_def spin_never)
qed

text \<open>
  The loop is left, or not, by what the attempts find, whatever the width of \<^verbatim>\<open>backoff\<close>:
  the definition of \<open>Lock\<close> holds with the loop run at any width.
\<close>

lemma Lock_any_width:
  "Lock key kl =
    (let m = LoadOrStore key (locks kl)
     in case spin (\<lambda>i. the (m key)) (maxSpins kl) 0 (1 :: 'w::len word) [] of
          None \<Rightarrow> None
        | Some yields \<Rightarrow> Some (kl\<lparr>locks := m(key \<mapsto> 1), count := count kl + 1\<rparr>))"
proof (cases "the (LoadOrStore key (locks kl) key) = 0")
  case True
  then show ?thesis by (simp add: Lock_def spin_at_once)
next
  case False
  then show ?thesis by (simp add: Lock_def spin_never)
qed

subsection \<open>Balanced sequences\<close>

lemma agrees_New: "agrees {} New"
  by (simp add: agrees_def New_def locked_def)

lemma agrees_Lock:
  assumes "agrees held kl" "key \<notin> held"
  shows "\<exists>kl1. Lock key kl = Some kl1 \<and> agrees (insert key held) kl1"
proof -
  from assms have nl: "\<not> locked kl key" by (auto simp: agrees_def)
  have "agrees (insert key held) (kl\<lparr>locks := (locks kl)(key \<mapsto> 1), count := count kl + 1\<rparr>)"
    using assms by (auto simp: agrees_def locked_def)
  with Lock_free [OF nl] show ?thesis by simp
qed

lemma agrees_Unlock:
  assumes "agrees held kl" "key \<in> held"
  shows "agrees (held - {key}) (Unlock key kl)"
proof -
  from assms have l: "locked kl key" by (auto simp: agrees_def)
  then obtain v where v: "locks kl key = Some v"
    by (auto simp: locked_def split: option.splits)
  from assms have "0 < card held" by (auto simp: agrees_def card_gt_0_iff)
  then have "(of_nat (card held - 1) :: 32 word) = of_nat (card held) - 1"
    by (simp add: of_nat_diff)
  moreover have "{k. locked (Unlock key kl) k} = held - {key}"
    using assms v by (auto simp: agrees_def Unlock_def locked_def)
  ultimately show ?thesis
    using assms v by (simp add: agrees_def Unlock_def)
qed

lemma balanced_prefix:
  assumes "balanced held cs" "agrees held kl"
  shows "\<exists>kl1 held1. invoke_all (take n cs) kl = Some kl1 \<and> agrees held1 kl1 \<and>
           balanced held1 (drop n cs)"
  using assms
proof (induction n arbitrary: held cs kl)
  case 0
  then show ?case by auto
next
  case (Suc n)
  show ?case
  proof (cases cs)
    case Nil
    with Suc.prems show ?thesis by auto
  next
    case (Cons c cs')
    show ?thesis
    proof (cases c)
      case (CLock key)
      with Cons Suc.prems have k: "key \<notin> held" "balanced (insert key held) cs'" by simp_all
      from agrees_Lock [OF Suc.prems(2) k(1)] obtain kl1
        where kl1: "Lock key kl = Some kl1" "agrees (insert key held) kl1" by blast
      from Suc.IH [OF k(2) kl1(2)] kl1(1) Cons CLock show ?thesis by simp
    next
      case (CUnlock key)
      with Cons Suc.prems have k: "key \<in> held" "balanced (held - {key}) cs'" by simp_all
      from Suc.IH [OF k(2) agrees_Unlock [OF Suc.prems(2) k(1)]] Cons CUnlock
      show ?thesis by simp
    qed (use Cons Suc.prems in simp_all)
  qed
qed

lemma agrees_Size:
  assumes "agrees held kl" "card {key. locked kl key} < 2 ^ 31"
  shows "Size kl = int (card {key. locked kl key})"
proof -
  from assms have c: "count kl = of_nat (card held)" "card held < 2 ^ 31"
    by (auto simp: agrees_def)
  have "(of_nat (card held) :: 32 word) = word_of_int (int (card held))" by simp
  then have "sint (of_nat (card held) :: 32 word) = signed_take_bit 31 (int (card held))"
    by (simp only: sint_sbintrunc') simp
  also have "\<dots> = int (card held)"
    using c(2) by (intro signed_take_bit_int_eq_self) simp_all
  finally show ?thesis using assms c by (auto simp: Size_def agrees_def)
qed

lemma balanced_locks:
  "balanced held (map CLock ks @ cs) \<longleftrightarrow>
     distinct ks \<and> set ks \<inter> held = {} \<and> balanced (held \<union> set ks) cs"
  by (induction ks arbitrary: held) auto

lemma balanced_unlocks:
  "distinct ks \<Longrightarrow> set ks = held \<Longrightarrow> balanced held (map CUnlock ks)"
proof (induction ks arbitrary: held)
  case Nil
  then show ?case by simp
next
  case (Cons k ks)
  then have "set ks = held - {k}" by auto
  with Cons show ?case by auto
qed

lemma Lock_many:
  assumes "distinct ks" "\<forall>key\<in>set ks. \<not> locked kl key"
  shows "\<exists>kl1. invoke_all (map CLock ks) kl = Some kl1 \<and>
           count kl1 = count kl + of_nat (length ks)"
  using assms
proof (induction ks arbitrary: kl)
  case Nil
  then show ?case by simp
next
  case (Cons k ks)
  let ?kl = "kl\<lparr>locks := (locks kl)(k \<mapsto> 1), count := count kl + 1\<rparr>"
  from Cons.prems have l: "Lock k kl = Some ?kl" by (simp add: Lock_free)
  from Cons.prems have "\<forall>key\<in>set ks. \<not> locked ?kl key"
    by (auto simp: locked_def)
  with Cons.IH [of ?kl] Cons.prems obtain kl1
    where "invoke_all (map CLock ks) ?kl = Some kl1"
      "count kl1 = count ?kl + of_nat (length ks)"
    by auto
  with l show ?case by simp
qed

lemma length_many_keys: "length many_keys = 2147483648"
  by (simp add: many_keys_def)

lemma distinct_many_keys: "distinct many_keys"
proof -
  have "inj key_of"
  proof (rule injI)
    fix a b assume "key_of a = key_of b"
    then have "length (key_of a) = length (key_of b)" by simp
    then show "a = b" by (simp add: key_of_def)
  qed
  then show ?thesis
    unfolding many_keys_def by (simp add: distinct_map inj_on_def)
qed

subsection \<open>TryLock\<close>

text \<open>
  Claim C3. \<^verbatim>\<open>TryLock\<close> makes one compare-and-swap on the cell of the key. It returns
  true exactly when the cell was unlocked, a key without an entry getting a fresh, unlocked
  cell first; then the cell is locked and the counter is one more, and nothing else has
  changed. When it returns false the manager is as it was, counter included. After any
  \<^verbatim>\<open>TryLock\<close>, and after a \<^verbatim>\<open>Lock\<close> that has returned, the key is held and a further
  \<^verbatim>\<open>TryLock\<close> of it returns false and changes nothing.
\<close>

theorem TryLock_single_compare_and_swap:
  "fst (TryLock key kl) = (\<not> locked kl key) \<and>
   (fst (TryLock key kl) \<longrightarrow>
      snd (TryLock key kl) = kl\<lparr>locks := (locks kl)(key \<mapsto> 1), count := count kl + 1\<rparr>) \<and>
   (\<not> fst (TryLock key kl) \<longrightarrow> snd (TryLock key kl) = kl) \<and>
   locked (snd (TryLock key kl)) key \<and>
   TryLock key (snd (TryLock key kl)) = (False, snd (TryLock key kl)) \<and>
   (Lock key kl = Some kl1 \<longrightarrow> TryLock key kl1 = (False, kl1))"
proof (cases "locked kl key")
  case True
  then show ?thesis by (simp add: TryLock_held Lock_held)
next
  case False
  let ?kl = "kl\<lparr>locks := (locks kl)(key \<mapsto> 1), count := count kl + 1\<rparr>"
  have "locked ?kl key" by (simp add: locked_def)
  with False show ?thesis by (auto simp: TryLock_free Lock_free TryLock_held)
qed

theorem TryLock_single_compare_and_swap_witness:
  "fst (TryLock ''a'' New) \<and>
   locks (snd (TryLock ''a'' New)) ''a'' = Some 1 \<and>
   count (snd (TryLock ''a'' New)) = 1 \<and>
   \<not> fst (TryLock ''a'' (snd (TryLock ''a'' New))) \<and>
   count (snd (TryLock ''a'' (snd (TryLock ''a'' New)))) = 1"
proof -
  have n: "\<not> locked New ''a''" by (simp add: locked_def New_def)
  note t = TryLock_single_compare_and_swap [of "''a''" New]
  from t n have 1: "fst (TryLock ''a'' New)" by blast
  with t have 2: "snd (TryLock ''a'' New) = New\<lparr>locks := (locks New)(''a'' \<mapsto> 1), count := count New + 1\<rparr>"
    by blast
  from t have 3: "TryLock ''a'' (snd (TryLock ''a'' New)) = (False, snd (TryLock ''a'' New))"
    by blast
  from 1 show ?thesis unfolding 3 unfolding 2 by (simp add: New_def)
qed

section \<open>The counter\<close>

text \<open>
  Claim C1, on the code. After \<^verbatim>\<open>TryLock("a")\<close> and \<^verbatim>\<open>Unlock("a")\<close> on a new manager the
  cell of \<open>a\<close> is unlocked and the counter is 0. A second \<^verbatim>\<open>Unlock("a")\<close> finds the entry,
  does not read the cell, and adds \<open>-1\<close> to the counter once more.
\<close>

theorem Unlock_twice_decrements_twice:
  "locks (Unlock ''a'' (snd (TryLock ''a'' New))) ''a'' = Some 0 \<and>
   count (Unlock ''a'' (snd (TryLock ''a'' New))) = 0 \<and>
   count (Unlock ''a'' (Unlock ''a'' (snd (TryLock ''a'' New)))) = - 1"
  by (simp add: TryLock_def Unlock_def New_def LoadOrStore_def CompareAndSwapInt32_def)

text \<open>
  Claim C2, on the code. \<^verbatim>\<open>Lock("a")\<close>, \<^verbatim>\<open>Size()\<close>, \<^verbatim>\<open>Unlock("a")\<close>, \<^verbatim>\<open>Unlock("a")\<close>,
  \<^verbatim>\<open>Size()\<close> on a new manager: every call returns, no cell is locked at the end, and
  \<^verbatim>\<open>Size\<close> is \<open>-1\<close>.
\<close>

theorem Size_negative_after_second_Unlock:
  "\<exists>kl. invoke_all [CLock ''a'', CSize, CUnlock ''a'', CUnlock ''a'', CSize] New = Some kl \<and>
        Size kl = - 1 \<and> {key. locked kl key} = {}"
  by (simp add: Lock_free locked_def Unlock_def New_def Size_def)

text \<open>
  Claim C4, as the code has it. A sequence of balanced \<^verbatim>\<open>Lock\<close> and \<^verbatim>\<open>Unlock\<close> pairs on a
  new manager runs to its end, every call returning, and \<^verbatim>\<open>Size\<close> is 0 after it. At every
  point of the sequence at which fewer than \<open>2 ^ 31\<close> keys are held, \<^verbatim>\<open>Size\<close> is the number
  of the locked cells, and so not negative.
\<close>

theorem balanced_Size:
  assumes "balanced {} cs"
  shows "(\<exists>kl. invoke_all cs New = Some kl \<and> Size kl = 0) \<and>
         (\<forall>n\<le>length cs. \<exists>kl. invoke_all (take n cs) New = Some kl \<and>
            (card {key. locked kl key} < 2 ^ 31 \<longrightarrow>
               Size kl = int (card {key. locked kl key}) \<and> 0 \<le> Size kl))"
proof -
  have p: "\<exists>kl held. invoke_all (take n cs) New = Some kl \<and> agrees held kl \<and>
      balanced held (drop n cs)" for n
    using balanced_prefix [OF assms agrees_New] by blast
  from p [of "length cs"] obtain kl where "invoke_all cs New = Some kl" "agrees {} kl"
    by auto
  then have "\<exists>kl. invoke_all cs New = Some kl \<and> Size kl = 0"
    by (auto simp: agrees_def Size_def)
  moreover have "\<exists>kl. invoke_all (take n cs) New = Some kl \<and>
            (card {key. locked kl key} < 2 ^ 31 \<longrightarrow>
               Size kl = int (card {key. locked kl key}) \<and> 0 \<le> Size kl)" for n
  proof -
    from p [of n] obtain kl held where k: "invoke_all (take n cs) New = Some kl" "agrees held kl"
      by blast
    from agrees_Size [OF k(2)] k(1) show ?thesis by auto
  qed
  ultimately show ?thesis by blast
qed

theorem balanced_Size_witness:
  "balanced {} [CLock ''a'', CLock ''b'', CUnlock ''a'', CUnlock ''b''] \<and>
   map_option Size (invoke_all [CLock ''a'', CLock ''b'', CUnlock ''a'', CUnlock ''b''] New)
     = Some 0 \<and>
   map_option Size (invoke_all [CLock ''a'', CLock ''b''] New) = Some 2"
proof -
  let ?cs = "[CLock ''a'', CLock ''b'', CUnlock ''a'', CUnlock ''b'']"
  let ?kl = "New\<lparr>locks := (locks New)(''a'' \<mapsto> 1, ''b'' \<mapsto> 1), count := 2\<rparr>"
  have b: "balanced {} ?cs"
    by (simp add: insert_Diff_if)
  note t = balanced_Size [OF b]
  have s: "invoke_all (take 2 ?cs) New = Some ?kl"
    by (simp add: Lock_free locked_def New_def)
  have "{key. locked ?kl key} = {''a'', ''b''}"
    by (auto simp: locked_def New_def split: if_splits)
  then have c: "card {key. locked ?kl key} = 2" by simp
  from t have a: "\<forall>n\<le>length ?cs. \<exists>kl. invoke_all (take n ?cs) New = Some kl \<and>
      (card {key. locked kl key} < 2 ^ 31 \<longrightarrow>
         Size kl = int (card {key. locked kl key}) \<and> 0 \<le> Size kl)"
    by (rule conjunct2)
  have "2 \<le> length ?cs" by simp
  with a obtain kl where kl: "invoke_all (take 2 ?cs) New = Some kl"
      "card {key. locked kl key} < 2 ^ 31 \<longrightarrow>
         Size kl = int (card {key. locked kl key}) \<and> 0 \<le> Size kl"
    by blast
  from kl(1) s have "kl = ?kl" by simp
  with kl(2) c have "Size ?kl = 2" by simp
  with s have "map_option Size (invoke_all [CLock ''a'', CLock ''b''] New) = Some 2"
    by simp
  with t b show ?thesis by auto
qed

text \<open>
  The counter is an \<^verbatim>\<open>int32\<close>. \<^verbatim>\<open>Lock\<close> of \<open>2 ^ 31\<close> different keys and then \<^verbatim>\<open>Unlock\<close> of
  each is a sequence of balanced pairs, and after the last \<^verbatim>\<open>Lock\<close> the counter has
  wrapped: \<^verbatim>\<open>Size\<close> is \<open>- (2 ^ 31)\<close>.
\<close>

theorem counter_wraps_at_2_31_keys:
  "balanced {} (map CLock many_keys @ map CUnlock many_keys) \<and>
   map_option Size
     (invoke_all (take 2147483648 (map CLock many_keys @ map CUnlock many_keys)) New)
     = Some (- 2147483648)"
proof -
  have b: "balanced {} (map CLock many_keys @ map CUnlock many_keys)"
    by (simp add: balanced_locks distinct_many_keys balanced_unlocks)
  have t: "take 2147483648 (map CLock many_keys @ map CUnlock many_keys) = map CLock many_keys"
    by (simp add: length_many_keys)
  have "\<forall>key\<in>set many_keys. \<not> locked New key" by (simp add: locked_def New_def)
  from Lock_many [OF distinct_many_keys this] obtain kl1
    where kl1: "invoke_all (map CLock many_keys) New = Some kl1"
      "count kl1 = count New + of_nat (length many_keys)" by blast
  have "Size kl1 = - 2147483648"
    by (simp add: Size_def kl1(2) length_many_keys New_def)
  with b t kl1(1) show ?thesis by simp
qed

section \<open>The registry\<close>

text \<open>
  Claim C6. \<^verbatim>\<open>Cleanup\<close> removes the entries whose cell is unlocked and no other: the entry
  of a key is kept as it is when its cell is locked and is gone otherwise, so the keys
  left are the keys with a locked cell. On a manager with no locked cell the registry is
  empty afterwards. The counter, and with it \<^verbatim>\<open>Size\<close>, is as before.
\<close>

theorem Cleanup_removes_unlocked:
  "locks (Cleanup kl) key = (if locked kl key then locks kl key else None) \<and>
   dom (locks (Cleanup kl)) = {k. locked kl k} \<and>
   ((\<forall>k. \<not> locked kl k) \<longrightarrow> locks (Cleanup kl) = Map.empty) \<and>
   count (Cleanup kl) = count kl \<and>
   Size (Cleanup kl) = Size kl"
proof -
  have 1: "locks (Cleanup kl) k = (if locked kl k then locks kl k else None)" for k
    by (simp add: Cleanup_def locked_def split: option.splits)
  have 2: "dom (locks (Cleanup kl)) = {k. locked kl k}"
    by (auto simp: 1 locked_def split: option.splits if_splits)
  have 3: "locks (Cleanup kl) = Map.empty" if "\<forall>k. \<not> locked kl k"
    using that by (intro ext) (simp add: 1)
  show ?thesis using 1 2 3 by (simp add: Cleanup_def Size_def)
qed

theorem Cleanup_removes_unlocked_witness:
  "locks (Cleanup (Unlock ''a'' (snd (TryLock ''b'' (snd (TryLock ''a'' New)))))) ''a'' = None \<and>
   locks (Cleanup (Unlock ''a'' (snd (TryLock ''b'' (snd (TryLock ''a'' New)))))) ''b'' = Some 1 \<and>
   Size (Cleanup (Unlock ''a'' (snd (TryLock ''b'' (snd (TryLock ''a'' New)))))) = 1 \<and>
   locks (Cleanup (Unlock ''a'' (snd (TryLock ''a'' New)))) = Map.empty"
proof -
  let ?k1 = "Unlock ''a'' (snd (TryLock ''b'' (snd (TryLock ''a'' New))))"
  let ?k2 = "Unlock ''a'' (snd (TryLock ''a'' New))"
  have e1: "?k1 = New\<lparr>locks := (locks New)(''a'' \<mapsto> 0, ''b'' \<mapsto> 1), count := 1\<rparr>"
    by (simp add: TryLock_free locked_def New_def Unlock_def fun_upd_twist)
  have e2: "?k2 = New\<lparr>locks := (locks New)(''a'' \<mapsto> 0), count := 0\<rparr>"
    by (simp add: TryLock_free locked_def New_def Unlock_def)
  have l1: "\<not> locked ?k1 ''a''" "locked ?k1 ''b''" "locks ?k1 ''b'' = Some 1" "Size ?k1 = 1"
    unfolding e1 by (simp_all add: locked_def Size_def)
  have l2: "\<forall>k. \<not> locked ?k2 k"
    unfolding e2 by (simp add: locked_def New_def)
  from Cleanup_removes_unlocked [of ?k1 "''a''"] Cleanup_removes_unlocked [of ?k1 "''b''"]
    Cleanup_removes_unlocked [of ?k2 "''a''"] l1 l2
  show ?thesis by simp
qed

text \<open>
  Claim C7. \<^verbatim>\<open>Unlock\<close> of a key without an entry returns the manager as it was: no cell
  and no counter changes, and the model has no fault to raise. That is so for a key that
  \<^verbatim>\<open>Cleanup\<close> has just evicted, and on a new manager, where \<^verbatim>\<open>Size\<close> stays 0.
\<close>

theorem Unlock_unknown_key:
  "(locks kl key = None \<longrightarrow> Unlock key kl = kl) \<and>
   (\<not> locked kl key \<longrightarrow> Unlock key (Cleanup kl) = Cleanup kl) \<and>
   Unlock key New = New \<and>
   Size (Unlock key New) = 0"
  by (simp add: Unlock_def Cleanup_def locked_def New_def Size_def split: option.splits)

theorem Unlock_unknown_key_witness:
  "locks (snd (TryLock ''a'' New)) ''b'' = None \<and>
   Unlock ''b'' (snd (TryLock ''a'' New)) = snd (TryLock ''a'' New) \<and>
   \<not> locked (Unlock ''a'' (snd (TryLock ''a'' New))) ''a'' \<and>
   Unlock ''a'' (Cleanup (Unlock ''a'' (snd (TryLock ''a'' New)))) =
     Cleanup (Unlock ''a'' (snd (TryLock ''a'' New)))"
proof -
  have 1: "locks (snd (TryLock ''a'' New)) ''b'' = None"
    by (simp add: TryLock_free locked_def New_def)
  have 2: "\<not> locked (Unlock ''a'' (snd (TryLock ''a'' New))) ''a''"
    by (simp add: TryLock_free locked_def New_def Unlock_def)
  from Unlock_unknown_key [of "snd (TryLock ''a'' New)" "''b''"]
    Unlock_unknown_key [of "Unlock ''a'' (snd (TryLock ''a'' New))" "''a''"] 1 2
  show ?thesis by blast
qed

text \<open>
  Claim C8. When \<^verbatim>\<open>TryLock(k)\<close> has returned true, \<^verbatim>\<open>Unlock(k)\<close> right after it leaves the
  cell of \<open>k\<close> unlocked and the counter where it was before the two calls, and the next
  \<^verbatim>\<open>TryLock(k)\<close> returns true again.
\<close>

theorem TryLock_Unlock_roundtrip:
  assumes "fst (TryLock key kl)"
  shows "fst (TryLock key (Unlock key (snd (TryLock key kl)))) \<and>
         \<not> locked (Unlock key (snd (TryLock key kl))) key \<and>
         count (Unlock key (snd (TryLock key kl))) = count kl"
proof -
  have nl: "\<not> locked kl key"
  proof
    assume "locked kl key"
    then have "TryLock key kl = (False, kl)" by (rule TryLock_held)
    with assms show False by simp
  qed
  let ?kl = "Unlock key (snd (TryLock key kl))"
  have u: "\<not> locked ?kl key" "count ?kl = count kl"
    by (simp_all add: TryLock_free [OF nl] Unlock_def locked_def)
  from TryLock_free [OF u(1)] u show ?thesis by simp
qed

theorem TryLock_Unlock_roundtrip_witness:
  "fst (TryLock ''a'' New) \<and>
   fst (TryLock ''a'' (Unlock ''a'' (snd (TryLock ''a'' New))))"
proof -
  have h: "fst (TryLock ''a'' New)"
    by (simp add: TryLock_free locked_def New_def)
  from TryLock_Unlock_roundtrip [OF h] h show ?thesis by simp
qed

text \<open>
  Claim C10. \<^verbatim>\<open>Unlock\<close> leaves the set of the keys in the registry as it is; after
  \<^verbatim>\<open>Lock(k)\<close> and \<^verbatim>\<open>Unlock(k)\<close> the entry of \<open>k\<close> is there, with an unlocked cell. No call
  other than \<^verbatim>\<open>Cleanup\<close> removes an entry, and \<^verbatim>\<open>Cleanup\<close> adds none.
\<close>

theorem Unlock_keeps_entry:
  "dom (locks (Unlock key kl)) = dom (locks kl) \<and>
   (Lock key kl = Some kl1 \<longrightarrow> locks (Unlock key kl1) key = Some 0) \<and>
   (invoke c kl = Some kl2 \<and> c \<noteq> CCleanup \<longrightarrow> dom (locks kl) \<subseteq> dom (locks kl2)) \<and>
   dom (locks (Cleanup kl)) \<subseteq> dom (locks kl)"
proof -
  have 1: "dom (locks (Unlock key' kl)) = dom (locks kl)" for key'
    by (auto simp: Unlock_def split: option.splits)
  have 2: "locks (Unlock key kl1) key = Some 0" if "Lock key kl = Some kl1"
  proof (cases "locked kl key")
    case True
    with that show ?thesis by (simp add: Lock_held)
  next
    case False
    with that show ?thesis by (auto simp: Lock_free Unlock_def)
  qed
  have t: "dom (locks kl) \<subseteq> dom (locks (snd (TryLock key' kl)))" for key'
    by (cases "locked kl key'") (auto simp: TryLock_free TryLock_held)
  have l: "dom (locks kl) \<subseteq> dom (locks kl2)" if "Lock key' kl = Some kl2" for key'
    using that by (cases "locked kl key'") (auto simp: Lock_free Lock_held)
  have 3: "dom (locks kl) \<subseteq> dom (locks kl2)" if "invoke c kl = Some kl2" "c \<noteq> CCleanup"
  proof (cases c)
    case (CLock k)
    with that l show ?thesis by simp
  next
    case (CTryLock k)
    with that have "kl2 = snd (TryLock k kl)" by simp
    with t show ?thesis by simp
  next
    case (CUnlock k)
    with that have "kl2 = Unlock k kl" by simp
    with 1 show ?thesis by simp
  next
    case CSize
    with that show ?thesis by auto
  next
    case CCleanup
    with that show ?thesis by simp
  qed
  have 4: "dom (locks (Cleanup kl)) \<subseteq> dom (locks kl)"
    by (auto simp: Cleanup_def split: option.splits if_splits)
  from 1 2 3 4 show ?thesis by blast
qed

theorem Unlock_keeps_entry_witness:
  "Lock ''a'' New = Some (New\<lparr>locks := (locks New)(''a'' \<mapsto> 1), count := 1\<rparr>) \<and>
   locks (Unlock ''a'' (New\<lparr>locks := (locks New)(''a'' \<mapsto> 1), count := 1\<rparr>)) ''a'' = Some 0 \<and>
   invoke (CTryLock ''b'') New = Some (snd (TryLock ''b'' New)) \<and>
   dom (locks New) \<subseteq> dom (locks (snd (TryLock ''b'' New)))"
proof -
  let ?kl = "New\<lparr>locks := (locks New)(''a'' \<mapsto> 1), count := 1\<rparr>"
  have 1: "Lock ''a'' New = Some ?kl"
    by (simp add: Lock_free locked_def New_def)
  have 2: "invoke (CTryLock ''b'') New = Some (snd (TryLock ''b'' New)) \<and> CTryLock ''b'' \<noteq> CCleanup"
    by simp
  from Unlock_keeps_entry [of "''a''" New ?kl "CTryLock ''b''" "snd (TryLock ''b'' New)"] 1 2
  show ?thesis by blast
qed

end
